theory Spec2Isabelle
  imports Main "HOL-Library.Word"
begin

section \<open>The tree transcoder of kdlc (main.go)\<close>

subsection \<open>Data model\<close>

text \<open>
  A \<^verbatim>\<open>*document.Value\<close> is used by main.go through two methods only:
  \<^verbatim>\<open>ResolvedValue()\<close>, whose dynamic type the switch of \<^verbatim>\<open>convertValue\<close>
  inspects, and \<^verbatim>\<open>String()\<close>, the textual rendering of the default branch.
  \<open>ROther\<close> stands for every dynamic type the switch does not list. A float64 is
  carried as its 64-bit pattern: the conversion never computes with it.
\<close>

datatype Resolved =
    RString string
  | RInt64 "64 word"
  | RFloat64 "64 word"
  | RBool bool
  | RNil
  | ROther

record Value =
  ResolvedValue :: Resolved
  ValueString :: string

text \<open>
  The values of Go's \<^verbatim>\<open>interface{}\<close> that the transcoder builds: nil, the four
  scalars, \<^verbatim>\<open>[]interface{}\<close> and \<^verbatim>\<open>map[string]interface{}\<close>. A Go map is
  unordered with unique keys, hence a HOL map.
\<close>

datatype json =
    JNull
  | JString string
  | JInt "64 word"
  | JFloat "64 word"
  | JBool bool
  | JArray "json list"
  | JObject "string \<Rightarrow> json option"

text \<open>
  \<^verbatim>\<open>document.Node\<close>: \<open>Name\<close> is the string that \<^verbatim>\<open>node.Name.NodeNameString()\<close>
  returns; a \<^verbatim>\<open>*Value\<close> may be nil, hence \<open>Value option\<close>. \<open>Properties\<close> is a Go
  map; it is listed here as its entries in the order the \<^verbatim>\<open>range\<close> loop visits
  them (keys are distinct in a Go map, see \<open>wf_Node\<close>).
\<close>

datatype Node = Node
  (Name: string)
  (Arguments: "Value option list")
  (Properties: "(string \<times> Value option) list")
  (Children: "Node list")

fun wf_Node :: "Node \<Rightarrow> bool" where
  "wf_Node (Node nm args props cs) =
     (distinct (map fst props) \<and> (\<forall>c \<in> set cs. wf_Node c))"

subsection \<open>Argument naming\<close>

text \<open>\<^verbatim>\<open>fmt.Sprintf("arg%d", index)\<close>: the decimal rendering of a Go int.\<close>

fun showNat :: "nat \<Rightarrow> string" where
  "showNat n =
     (if n < 10 then [char_of (48 + n)]
      else showNat (n div 10) @ [char_of (48 + n mod 10)])"

declare showNat.simps [simp del]

definition showInt :: "int \<Rightarrow> string" where
  "showInt i = (if i < 0 then CHR ''-'' # showNat (nat (- i)) else showNat (nat i))"

text \<open>The global \<^verbatim>\<open>argNameMap\<close> is a parameter of the model.\<close>

type_synonym argNames = "int \<Rightarrow> string option"

definition defaultArgNameMap :: argNames where
  "defaultArgNameMap =
     [1 \<mapsto> ''arg1'', 2 \<mapsto> ''arg2'', 3 \<mapsto> ''arg3'', 4 \<mapsto> ''arg4'', 5 \<mapsto> ''arg5'']"

definition getArgName :: "argNames \<Rightarrow> int \<Rightarrow> string" where
  "getArgName argNameMap index =
     (case argNameMap index of
        Some name \<Rightarrow> name
      | None \<Rightarrow> ''arg'' @ showInt index)"

subsection \<open>Scalar conversion\<close>

fun convertValue :: "Value option \<Rightarrow> json" where
  "convertValue None = JNull"
| "convertValue (Some v) =
     (case ResolvedValue v of
        RString s \<Rightarrow> JString s
      | RInt64 i \<Rightarrow> JInt i
      | RFloat64 f \<Rightarrow> JFloat f
      | RBool b \<Rightarrow> JBool b
      | RNil \<Rightarrow> JNull
      | ROther \<Rightarrow> JString (ValueString v))"

subsection \<open>Node conversion\<close>

text \<open>
  \<^verbatim>\<open>for i, arg := range node.Arguments { obj[getArgName(i + 1)] = convertValue(arg) }\<close>,
  with the loop index \<open>i\<close> explicit.
\<close>

fun addArguments :: "argNames \<Rightarrow> (string \<Rightarrow> json option) \<Rightarrow> int \<Rightarrow> Value option list
    \<Rightarrow> (string \<Rightarrow> json option)" where
  "addArguments cfg obj i [] = obj"
| "addArguments cfg obj i (arg # args) =
     addArguments cfg (obj(getArgName cfg (i + 1) \<mapsto> convertValue arg)) (i + 1) args"

text \<open>\<^verbatim>\<open>for name, value := range node.Properties { obj[name] = convertValue(value) }\<close>\<close>

fun addProperties :: "(string \<Rightarrow> json option) \<Rightarrow> (string \<times> Value option) list
    \<Rightarrow> (string \<Rightarrow> json option)" where
  "addProperties obj [] = obj"
| "addProperties obj ((name, v) # props) =
     addProperties (obj(name \<mapsto> convertValue v)) props"

text \<open>
  \<^verbatim>\<open>groups[key] = append(groups[key], node)\<close> over the nodes in order; a missing key
  reads as the nil slice.
\<close>

fun nodeGroups :: "(string \<Rightarrow> Node list option) \<Rightarrow> Node list \<Rightarrow> (string \<Rightarrow> Node list option)" where
  "nodeGroups groups [] = groups"
| "nodeGroups groups (node # nodes) =
     nodeGroups
       (groups(Name node \<mapsto> (case groups (Name node) of None \<Rightarrow> [] | Some g \<Rightarrow> g) @ [node]))
       nodes"

lemma nodeGroups_filter:
  "nodeGroups groups nodes k =
     (let g = filter (\<lambda>n. Name n = k) nodes in
      if g = [] then groups k
      else Some ((case groups k of None \<Rightarrow> [] | Some g0 \<Rightarrow> g0) @ g))"
  by (induction nodes arbitrary: groups) (auto simp: Let_def split: option.splits)

lemma nodeGroups_members:
  "nodeGroups Map.empty nodes k = Some g \<Longrightarrow> set g \<subseteq> set nodes"
  by (auto simp: nodeGroups_filter Let_def split: if_splits)

function convertNodeToValue :: "argNames \<Rightarrow> Node \<Rightarrow> json" where
  "convertNodeToValue cfg node =
     (if length (Children node) > 0 then
        (let obj = Map.empty;
             obj = (if length (Arguments node) > 0
                    then addArguments cfg obj 0 (Arguments node) else obj);
             obj = (if length (Properties node) > 0
                    then addProperties obj (Properties node) else obj);
             childGroups = nodeGroups Map.empty (Children node)
         in JObject (\<lambda>childKey.
              case childGroups childKey of
                None \<Rightarrow> obj childKey
              | Some childNodes \<Rightarrow>
                  if length childNodes = 1
                  then Some (convertNodeToValue cfg (childNodes ! 0))
                  else Some (JArray (map (convertNodeToValue cfg) childNodes))))
      else if length (Properties node) > 0 then
        (let obj = Map.empty;
             obj = (if length (Arguments node) > 0
                    then addArguments cfg obj 0 (Arguments node) else obj)
         in JObject (addProperties obj (Properties node)))
      else if length (Arguments node) > 1 then
        JArray (map convertValue (Arguments node))
      else if length (Arguments node) = 1 then
        convertValue (Arguments node ! 0)
      else JNull)"
  by pat_completeness auto

lemma size_Node_member: "c \<in> set cs \<Longrightarrow> size c < Suc (size_list size cs)"
  by (induction cs) auto

termination convertNodeToValue
proof (relation "measure (\<lambda>(cfg, n). size n)", goal_cases)
  case 1
  show ?case by simp
next
  case (2 cfg node obj obj2 obj3 childGroups childKey childNodes)
  then have "childNodes ! 0 \<in> set (Children node)"
    using nodeGroups_members[of "Children node" childKey childNodes]
    by (cases childNodes) auto
  then show ?case
    by (cases node) (auto dest: size_Node_member)
next
  case (3 cfg node obj obj2 obj3 childGroups childKey childNodes c)
  then have "c \<in> set (Children node)"
    using nodeGroups_members[of "Children node" childKey childNodes] by auto
  then show ?case
    by (cases node) (auto dest: size_Node_member)
qed

declare convertNodeToValue.simps [simp del]

text \<open>
  \<^verbatim>\<open>convertKDLToJSON\<close> up to the call of \<^verbatim>\<open>json.MarshalIndent\<close>: the map
  \<^verbatim>\<open>result\<close> that is handed to the encoder. \<open>nodes\<close> is \<^verbatim>\<open>doc.Nodes\<close>.
\<close>

definition convertKDLToJSON :: "argNames \<Rightarrow> Node list \<Rightarrow> (string \<Rightarrow> json option)" where
  "convertKDLToJSON cfg nodes =
     (let result = Map.empty;
          groups = nodeGroups Map.empty nodes
      in (\<lambda>key.
            case groups key of
              None \<Rightarrow> result key
            | Some ns \<Rightarrow>
                if length ns = 1
                then Some (convertNodeToValue cfg (ns ! 0))
                else Some (JArray (map (convertNodeToValue cfg) ns))))"

text \<open>The JSON scalars, as opposed to arrays and objects.\<close>

fun isScalar :: "json \<Rightarrow> bool" where
  "isScalar (JArray xs) = False"
| "isScalar (JObject m) = False"
| "isScalar j = True"

section \<open>The inclusion resolver of kdlc (main.go)\<close>

subsection \<open>Strings\<close>

text \<open>\<^verbatim>\<open>strings.Contains(s, substr)\<close>\<close>

fun hasPrefix :: "string \<Rightarrow> string \<Rightarrow> bool" where
  "hasPrefix s [] = True"
| "hasPrefix [] (p # ps) = False"
| "hasPrefix (c # cs) (p # ps) = (c = p \<and> hasPrefix cs ps)"

fun Contains :: "string \<Rightarrow> string \<Rightarrow> bool" where
  "Contains [] substr = (substr = [])"
| "Contains (c # cs) substr = (hasPrefix (c # cs) substr \<or> Contains cs substr)"

text \<open>
  \<^verbatim>\<open>strings.Split(content, "\n")\<close> and \<^verbatim>\<open>strings.Join(result, "\n")\<close>;
  \<open>cur\<close> is the piece read so far.
\<close>

definition newline :: char where
  "newline = CHR 0x0A"

fun SplitFrom :: "string \<Rightarrow> string \<Rightarrow> string list" where
  "SplitFrom cur [] = [cur]"
| "SplitFrom cur (c # cs) =
     (if c = newline then cur # SplitFrom [] cs else SplitFrom (cur @ [c]) cs)"

definition Split :: "string \<Rightarrow> string list" where
  "Split content = SplitFrom [] content"

fun Join :: "string list \<Rightarrow> string" where
  "Join [] = []"
| "Join [x] = x"
| "Join (x # y # ys) = x @ newline # Join (y # ys)"

text \<open>
  The match of \<^verbatim>\<open>^\s*@include\s+"([^"]+)"\<close> on one line, as
  \<^verbatim>\<open>FindStringSubmatch\<close> reports its group 1: \<^verbatim>\<open>\s\<close> is tab, line feed, form
  feed, carriage return or space; every repetition is followed by a character outside
  its class, so the greedy match is the only one.
\<close>

definition isSpace :: "char \<Rightarrow> bool" where
  "isSpace c = (c = CHR 0x09 \<or> c = CHR 0x0A \<or> c = CHR 0x0C \<or> c = CHR 0x0D \<or> c = CHR 0x20)"

definition quote :: char where
  "quote = CHR 0x22"

definition includeRegex :: "string \<Rightarrow> string option" where
  "includeRegex line =
     (let s1 = dropWhile isSpace line in
      if \<not> hasPrefix s1 ''@include'' then None
      else
        let s2 = drop (length ''@include'') s1;
            s3 = dropWhile isSpace s2
        in if takeWhile isSpace s2 = [] then None
           else case s3 of
                  [] \<Rightarrow> None
                | q # s4 \<Rightarrow>
                    if q \<noteq> quote then None
                    else
                      let group1 = takeWhile (\<lambda>c. c \<noteq> quote) s4 in
                      if group1 = [] then None
                      else if dropWhile (\<lambda>c. c \<noteq> quote) s4 = [] then None
                      else Some group1)"

subsection \<open>Files and errors\<close>

text \<open>
  The operating system as main.go sees it: \<^verbatim>\<open>filepath.Abs\<close> and \<^verbatim>\<open>os.ReadFile\<close>
  (\<open>None\<close> when they return an error), \<^verbatim>\<open>filepath.Dir\<close> and \<^verbatim>\<open>filepath.Join\<close>.
\<close>

record os =
  filepath_Abs :: "string \<Rightarrow> string option"
  os_ReadFile :: "string \<Rightarrow> string option"
  filepath_Dir :: "string \<Rightarrow> string"
  filepath_Join :: "string \<Rightarrow> string \<Rightarrow> string"

text \<open>The four \<^verbatim>\<open>fmt.Errorf\<close> of \<^verbatim>\<open>processIncludes\<close>, with what each names.\<close>

datatype error =
    AbsPathError string
  | CircularInclude string
  | ReadError string
  | IncludeError string error

subsection \<open>processIncludes\<close>

text \<open>
  \<open>included\<close> is the set of keys of the map \<^verbatim>\<open>included\<close> (only \<^verbatim>\<open>true\<close> is ever
  stored). The map is shared by all calls, so it is passed in and returned, also with an
  error. \<open>fuel\<close> bounds the depth of the recursion; \<open>None\<close> means that the bound was
  reached. \<open>processLines\<close> is the \<^verbatim>\<open>for _, line := range lines\<close> loop, \<open>result\<close>
  its accumulator.
\<close>

fun processIncludes ::
    "nat \<Rightarrow> 'a os_scheme \<Rightarrow> string \<Rightarrow> string set \<Rightarrow> ((error + string) \<times> string set) option"
  and processLines ::
    "nat \<Rightarrow> 'a os_scheme \<Rightarrow> string \<Rightarrow> string list \<Rightarrow> string list \<Rightarrow> string set
       \<Rightarrow> ((error + string) \<times> string set) option"
where
  "processIncludes 0 sys filename included = None"
| "processIncludes (Suc fuel) sys filename included =
     (case filepath_Abs sys filename of
        None \<Rightarrow> Some (Inl (AbsPathError filename), included)
      | Some absPath \<Rightarrow>
          if absPath \<in> included then Some (Inl (CircularInclude filename), included)
          else
            let included = insert absPath included in
            case os_ReadFile sys filename of
              None \<Rightarrow> Some (Inl (ReadError filename), included)
            | Some content \<Rightarrow>
                if \<not> Contains content ''@include'' then Some (Inr content, included)
                else processLines fuel sys filename (Split content) [] included)"
| "processLines fuel sys filename [] result included = Some (Inr (Join result), included)"
| "processLines fuel sys filename (line # lines) result included =
     (case includeRegex line of
        Some includeFile \<Rightarrow>
          (let dir = filepath_Dir sys filename;
               includePath = filepath_Join sys dir includeFile
           in case processIncludes fuel sys includePath included of
                None \<Rightarrow> None
              | Some (Inl err, included) \<Rightarrow> Some (Inl (IncludeError includeFile err), included)
              | Some (Inr includedContent, included) \<Rightarrow>
                  processLines fuel sys filename lines (result @ [includedContent]) included)
      | None \<Rightarrow> processLines fuel sys filename lines (result @ [line]) included)"

subsection \<open>Example inputs\<close>

definition strVal :: "string \<Rightarrow> Value option" where
  "strVal s = Some \<lparr>ResolvedValue = RString s, ValueString = s\<rparr>"

definition intVal :: "64 word \<Rightarrow> Value option" where
  "intVal i = Some \<lparr>ResolvedValue = RInt64 i, ValueString = []\<rparr>"

text \<open>
  A working directory \<^verbatim>\<open>/w\<close> holding the given files, addressed by their bare names:
  \<^verbatim>\<open>filepath.Dir("a.kdl")\<close> is \<^verbatim>\<open>"."\<close> and \<^verbatim>\<open>filepath.Join(".", "b.kdl")\<close> is
  \<^verbatim>\<open>"b.kdl"\<close>.
\<close>

definition flatDir :: "(string \<times> string) list \<Rightarrow> os" where
  "flatDir files =
     \<lparr>filepath_Abs = (\<lambda>p. Some (''/w/'' @ p)),
      os_ReadFile = map_of files,
      filepath_Dir = (\<lambda>p. ''.''),
      filepath_Join = (\<lambda>d f. f)\<rparr>"

text \<open>A directive line for the path \<open>p\<close>, and two files that include each other.\<close>

definition directive :: "string \<Rightarrow> string" where
  "directive p = ''@include '' @ quote # p @ [quote]"


text \<open>
  A file that includes two leaf files on sibling lines, and a diamond: \<^verbatim>\<open>main.kdl\<close>
  includes \<^verbatim>\<open>b.kdl\<close> and \<^verbatim>\<open>c.kdl\<close>, each of which includes \<^verbatim>\<open>d.kdl\<close>.
\<close>

definition diamond :: os where
  "diamond = flatDir
     [(''main.kdl'', directive ''b.kdl'' @ [newline] @ directive ''c.kdl''),
      (''b.kdl'', directive ''d.kdl''),
      (''c.kdl'', directive ''d.kdl''),
      (''d.kdl'', ''leaf 1'')]"

definition twoIncludes :: os where
  "twoIncludes = flatDir
     [(''main.kdl'', directive ''config.kdl'' @ [newline] @ directive ''ui.kdl'' @ [newline] @ ''scene 1''),
      (''config.kdl'', ''config 2''),
      (''ui.kdl'', ''ui 3'')]"

subsection \<open>Vocabulary of the statements about the resolver\<close>

text \<open>
  What one line of a file contributes to the resolved text: a line that is no directive
  contributes itself; a directive contributes the text that \<^verbatim>\<open>processIncludes\<close> returns
  for the referenced path, joined to the directory of the including file, called with a
  visited set that extends \<open>included\<close>.
\<close>

definition pieceOf :: "nat \<Rightarrow> 'a os_scheme \<Rightarrow> string \<Rightarrow> string set \<Rightarrow> string \<Rightarrow> string \<Rightarrow> bool" where
  "pieceOf fuel sys filename included line piece =
     (case includeRegex line of
        None \<Rightarrow> piece = line
      | Some includeFile \<Rightarrow>
          (\<exists>inc inc'. included \<subseteq> inc \<and>
             processIncludes fuel sys (filepath_Join sys (filepath_Dir sys filename) includeFile) inc
               = Some (Inr piece, inc')))"


text \<open>An error that is a circular-include error, bare or wrapped by the including files.\<close>

fun reportsCircular :: "error \<Rightarrow> bool" where
  "reportsCircular (CircularInclude p) = True"
| "reportsCircular (IncludeError p e) = reportsCircular e"
| "reportsCircular e = False"



text \<open>
  The inclusion tree below a file, unfolded with no cycle check: the text in which every
  directive line is replaced by the unfolded text of the file it names, and the absolute
  paths of the files entered, in the order in which the traversal enters them. \<open>None\<close>
  when a file on the way cannot be resolved or read, or when the tree is deeper than
  \<open>fuel\<close> (as every cyclic one is).
\<close>

fun expand :: "nat \<Rightarrow> 'a os_scheme \<Rightarrow> string \<Rightarrow> (string \<times> string list) option"
  and expandLines ::
    "nat \<Rightarrow> 'a os_scheme \<Rightarrow> string \<Rightarrow> string list \<Rightarrow> (string list \<times> string list) option"
where
  "expand 0 sys filename = None"
| "expand (Suc fuel) sys filename =
     (case filepath_Abs sys filename of
        None \<Rightarrow> None
      | Some absPath \<Rightarrow>
          (case os_ReadFile sys filename of
             None \<Rightarrow> None
           | Some content \<Rightarrow>
               (case expandLines fuel sys filename (Split content) of
                  None \<Rightarrow> None
                | Some (pieces, entered) \<Rightarrow> Some (Join pieces, absPath # entered))))"
| "expandLines fuel sys filename [] = Some ([], [])"
| "expandLines fuel sys filename (line # lines) =
     (case includeRegex line of
        None \<Rightarrow>
          (case expandLines fuel sys filename lines of
             None \<Rightarrow> None
           | Some (pieces, entered) \<Rightarrow> Some (line # pieces, entered))
      | Some includeFile \<Rightarrow>
          (case expand fuel sys (filepath_Join sys (filepath_Dir sys filename) includeFile) of
             None \<Rightarrow> None
           | Some (expanded, entered1) \<Rightarrow>
               (case expandLines fuel sys filename lines of
                  None \<Rightarrow> None
                | Some (pieces, entered2) \<Rightarrow> Some (expanded # pieces, entered1 @ entered2))))"

text \<open>
  What a line is replaced by: a line that is no directive, by itself; a directive, by the
  text that \<^verbatim>\<open>processIncludes\<close> returns for the file it names (relative to the
  directory of the including file) when that file is resolved on its own.
\<close>

definition replaced :: "nat \<Rightarrow> 'a os_scheme \<Rightarrow> string \<Rightarrow> string \<Rightarrow> string \<Rightarrow> bool" where
  "replaced fuel sys filename line piece =
     (case includeRegex line of
        None \<Rightarrow> piece = line
      | Some includeFile \<Rightarrow>
          (\<exists>inc'. processIncludes fuel sys
                    (filepath_Join sys (filepath_Dir sys filename) includeFile) {}
                  = Some (Inr piece, inc')))"

section \<open>Properties of the transcoder\<close>

lemma convertValue_scalar: "isScalar (convertValue v)"
  by (cases v) (auto split: Resolved.splits)

lemma addProperties_lookup:
  "addProperties obj props k =
     (case map_of (rev props) k of Some v \<Rightarrow> Some (convertValue v) | None \<Rightarrow> obj k)"
proof (induction obj props rule: addProperties.induct)
  case (1 obj)
  show ?case by simp
next
  case (2 obj name v props)
  show ?case
    unfolding addProperties.simps "2.IH"
    by (simp add: map_add_def split: option.splits)
qed

lemma addArguments_lookup:
  "addArguments cfg obj i args k =
     (case filter (\<lambda>j. getArgName cfg (i + int j + 1) = k) [0..<length args] of
        [] \<Rightarrow> obj k
      | js \<Rightarrow> Some (convertValue (args ! last js)))"
proof (induction cfg obj i args rule: addArguments.induct)
  case (1 cfg obj i)
  then show ?case by simp
next
  case (2 cfg obj i arg args)
  have up: "[0..<length (arg # args)] = 0 # map Suc [0..<length args]"
    by (simp add: upt_conv_Cons map_Suc_upt del: upt_Suc)
  show ?case
    unfolding addArguments.simps 2 up
    by (auto simp: filter_map comp_def add.commute add.left_commute last_map split: list.splits)
qed

lemma nodeGroups_empty_lookup:
  "nodeGroups Map.empty nodes k =
     (if filter (\<lambda>n. Name n = k) nodes = [] then None
      else Some (filter (\<lambda>n. Name n = k) nodes))"
  by (simp add: nodeGroups_filter Let_def)

lemma convertNodeToValue_children:
  assumes "Children node \<noteq> []"
  shows "convertNodeToValue cfg node =
     JObject (\<lambda>k.
       case nodeGroups Map.empty (Children node) k of
         Some childNodes \<Rightarrow>
           Some (if length childNodes = 1 then convertNodeToValue cfg (childNodes ! 0)
                 else JArray (map (convertNodeToValue cfg) childNodes))
       | None \<Rightarrow>
           (case map_of (rev (Properties node)) k of
              Some v \<Rightarrow> Some (convertValue v)
            | None \<Rightarrow> addArguments cfg Map.empty 0 (Arguments node) k))"
proof -
  have a: "(if 0 < length (Arguments node) then addArguments cfg Map.empty 0 (Arguments node)
            else Map.empty) = addArguments cfg Map.empty 0 (Arguments node)"
    by (cases "Arguments node") simp_all
  have p: "(if 0 < length (Properties node) then addProperties obj (Properties node) else obj)
            = addProperties obj (Properties node)" for obj
    by (cases "Properties node") simp_all
  show ?thesis
    using assms
    by (subst convertNodeToValue.simps)
       (auto simp: Let_def a p addProperties_lookup fun_eq_iff split: option.splits)
qed

lemma convertNodeToValue_props:
  assumes "Children node = []" "Properties node \<noteq> []"
  shows "convertNodeToValue cfg node =
     JObject (\<lambda>k.
           (case map_of (rev (Properties node)) k of
              Some v \<Rightarrow> Some (convertValue v)
            | None \<Rightarrow> addArguments cfg Map.empty 0 (Arguments node) k))"
proof -
  have a: "(if 0 < length (Arguments node) then addArguments cfg Map.empty 0 (Arguments node)
            else Map.empty) = addArguments cfg Map.empty 0 (Arguments node)"
    by (cases "Arguments node") simp_all
  show ?thesis
    using assms
    by (subst convertNodeToValue.simps)
       (auto simp: Let_def a addProperties_lookup fun_eq_iff split: option.splits)
qed

lemma map_of_rev_distinct:
  "distinct (map fst xs) \<Longrightarrow> map_of (rev xs) = map_of xs"
  by (rule map_of_inject_set[THEN iffD2]) (simp_all add: rev_map[symmetric])

text \<open>
  Claim C1. A node that has at least one child converts to a JSON object, whatever its
  arguments and properties are, also when it has none of either.
\<close>

theorem children_give_object:
  "Children node \<noteq> [] \<Longrightarrow> \<exists>obj. convertNodeToValue cfg node = JObject obj"
  by (simp add: convertNodeToValue.simps[of cfg node] Let_def)

theorem children_give_object_witness:
  "Children (Node ''scene'' [] [] [Node ''empty'' [] [] []]) \<noteq> [] \<and>
   (\<exists>obj. convertNodeToValue defaultArgNameMap (Node ''scene'' [] [] [Node ''empty'' [] [] []])
       = JObject obj)"
  using children_give_object[of "Node ''scene'' [] [] [Node ''empty'' [] [] []]" defaultArgNameMap]
  by simp

text \<open>
  Claim C2. Among the nodes of the document root, and equally among the children of any
  node, the siblings named \<open>k\<close> are \<open>filter (\<lambda>n. Name n = k) siblings\<close>, in document
  order. When there are two or more of them, the output maps \<open>k\<close> to the array of their
  converted values in that order; when there is exactly one, the output maps \<open>k\<close> to its
  converted value, with no array around it.
\<close>

theorem sibling_grouping:
  "(2 \<le> length (filter (\<lambda>n. Name n = k) siblings) \<longrightarrow>
      convertKDLToJSON cfg siblings k =
        Some (JArray (map (convertNodeToValue cfg) (filter (\<lambda>n. Name n = k) siblings))) \<and>
      (\<exists>obj. convertNodeToValue cfg (Node nm args props siblings) = JObject obj \<and>
         obj k = Some (JArray (map (convertNodeToValue cfg) (filter (\<lambda>n. Name n = k) siblings))))) \<and>
   (\<forall>n. filter (\<lambda>n. Name n = k) siblings = [n] \<longrightarrow>
      convertKDLToJSON cfg siblings k = Some (convertNodeToValue cfg n) \<and>
      (\<exists>obj. convertNodeToValue cfg (Node nm args props siblings) = JObject obj \<and>
         obj k = Some (convertNodeToValue cfg n)))"
proof (intro conjI impI allI)
  assume g: "2 \<le> length (filter (\<lambda>n. Name n = k) siblings)"
  then have ne: "filter (\<lambda>n. Name n = k) siblings \<noteq> []" "siblings \<noteq> []" by auto
  from g ne show "convertKDLToJSON cfg siblings k =
        Some (JArray (map (convertNodeToValue cfg) (filter (\<lambda>n. Name n = k) siblings)))"
    by (simp add: convertKDLToJSON_def nodeGroups_empty_lookup)
  from g ne show "\<exists>obj. convertNodeToValue cfg (Node nm args props siblings) = JObject obj \<and>
         obj k = Some (JArray (map (convertNodeToValue cfg) (filter (\<lambda>n. Name n = k) siblings)))"
    by (simp add: convertNodeToValue_children nodeGroups_empty_lookup)
next
  fix n assume g: "filter (\<lambda>n. Name n = k) siblings = [n]"
  then have ne: "siblings \<noteq> []" by auto
  from g show "convertKDLToJSON cfg siblings k = Some (convertNodeToValue cfg n)"
    by (simp add: convertKDLToJSON_def nodeGroups_empty_lookup)
  from g ne show "\<exists>obj. convertNodeToValue cfg (Node nm args props siblings) = JObject obj \<and>
         obj k = Some (convertNodeToValue cfg n)"
    by (simp add: convertNodeToValue_children nodeGroups_empty_lookup)
qed

theorem sibling_grouping_witness:
  "convertKDLToJSON defaultArgNameMap
     [Node ''item'' [strVal ''sword''] [] [], Node ''hero'' [strVal ''bob''] [] [],
      Node ''item'' [strVal ''bow''] [] []] ''item''
     = Some (JArray [JString ''sword'', JString ''bow'']) \<and>
   convertKDLToJSON defaultArgNameMap
     [Node ''item'' [strVal ''sword''] [] [], Node ''hero'' [strVal ''bob''] [] [],
      Node ''item'' [strVal ''bow''] [] []] ''hero''
     = Some (JString ''bob'') \<and>
   (\<exists>obj. convertNodeToValue defaultArgNameMap (Node ''scene'' [] []
     [Node ''item'' [strVal ''sword''] [] [], Node ''hero'' [strVal ''bob''] [] [],
      Node ''item'' [strVal ''bow''] [] []]) = JObject obj \<and>
      obj ''item'' = Some (JArray [JString ''sword'', JString ''bow'']) \<and>
      obj ''hero'' = Some (JString ''bob''))"
  using sibling_grouping[of "''item''" "[Node ''item'' [strVal ''sword''] [] [], Node ''hero'' [strVal ''bob''] [] [],
      Node ''item'' [strVal ''bow''] [] []]" defaultArgNameMap "''scene''" "[]" "[]"]
   sibling_grouping[of "''hero''" "[Node ''item'' [strVal ''sword''] [] [], Node ''hero'' [strVal ''bob''] [] [],
      Node ''item'' [strVal ''bow''] [] []]" defaultArgNameMap "''scene''" "[]" "[]"]
  by (auto simp: strVal_def
      convertNodeToValue.simps[of _ "Node ''item'' [x] [] []" for x]
      convertNodeToValue.simps[of _ "Node ''hero'' [x] [] []" for x])

text \<open>
  Claim C3. A node with no children and no properties converts to the scalar conversion
  of its argument when it has exactly one (a scalar, neither an array nor an object), to
  the array of its converted arguments in their order when it has two or more, and to
  JSON null when it has none.
\<close>

theorem leaf_node_shapes:
  "Children node = [] \<and> Properties node = [] \<longrightarrow>
   (\<forall>a. Arguments node = [a] \<longrightarrow>
        convertNodeToValue cfg node = convertValue a \<and> isScalar (convertNodeToValue cfg node)) \<and>
   (length (Arguments node) \<ge> 2 \<longrightarrow>
        convertNodeToValue cfg node = JArray (map convertValue (Arguments node))) \<and>
   (Arguments node = [] \<longrightarrow> convertNodeToValue cfg node = JNull)"
  by (auto simp: convertNodeToValue.simps[of cfg node] convertValue_scalar)

theorem leaf_node_shapes_witness:
  "convertNodeToValue defaultArgNameMap (Node ''title'' [strVal ''Main''] [] []) = JString ''Main'' \<and>
   convertNodeToValue defaultArgNameMap (Node ''pos'' [intVal 1, None, strVal ''z''] [] [])
     = JArray [JInt 1, JNull, JString ''z''] \<and>
   convertNodeToValue defaultArgNameMap (Node ''flag'' [] [] []) = JNull"
  using leaf_node_shapes[of "Node ''title'' [strVal ''Main''] [] []" defaultArgNameMap]
    leaf_node_shapes[of "Node ''pos'' [intVal 1, None, strVal ''z''] [] []" defaultArgNameMap]
    leaf_node_shapes[of "Node ''flag'' [] [] []" defaultArgNameMap]
  by (simp add: strVal_def intVal_def)

text \<open>
  Claim C7. The object of a node with children has one flat key namespace, filled with
  the arguments first, then the properties, then the children, a later insertion
  replacing an earlier one. So a key that names a group of children holds that group's
  value; otherwise a key that names a property holds the property's value; otherwise it
  holds the value of the last argument whose configured positional key it is; otherwise
  it is absent.
\<close>

theorem flat_namespace_order:
  assumes "Children node \<noteq> []"
  shows "\<exists>obj. convertNodeToValue cfg node = JObject obj \<and>
    (\<forall>k. obj k =
      (case nodeGroups Map.empty (Children node) k of
         Some childNodes \<Rightarrow>
           Some (if length childNodes = 1 then convertNodeToValue cfg (childNodes ! 0)
                 else JArray (map (convertNodeToValue cfg) childNodes))
       | None \<Rightarrow>
           (case map_of (rev (Properties node)) k of
              Some v \<Rightarrow> Some (convertValue v)
            | None \<Rightarrow>
               (case filter (\<lambda>j. getArgName cfg (int j + 1) = k) [0..<length (Arguments node)] of
                  [] \<Rightarrow> None
                | js \<Rightarrow> Some (convertValue (Arguments node ! last js))))))"
  using assms
  by (simp add: convertNodeToValue_children addArguments_lookup cong: option.case_cong)

theorem flat_namespace_order_witness:
  "\<exists>obj. convertNodeToValue (defaultArgNameMap(1 \<mapsto> ''x'', 2 \<mapsto> ''c''))
      (Node ''n'' [strVal ''first'', strVal ''second'', strVal ''third'']
         [(''x'', intVal 10)] [Node ''c'' [strVal ''child''] [] []]) = JObject obj \<and>
      obj ''x'' = Some (JInt 10) \<and> obj ''c'' = Some (JString ''child'') \<and>
      obj ''arg3'' = Some (JString ''third'') \<and> obj ''arg1'' = None"
  using flat_namespace_order[of "Node ''n'' [strVal ''first'', strVal ''second'', strVal ''third'']
         [(''x'', intVal 10)] [Node ''c'' [strVal ''child''] [] []]"
      "defaultArgNameMap(1 \<mapsto> ''x'', 2 \<mapsto> ''c'')"]
  by (auto simp: strVal_def intVal_def getArgName_def defaultArgNameMap_def
      convertNodeToValue.simps[of _ "Node ''c'' [x] [] []" for x])

text \<open>
  Claim C9. The converted value of a node is determined by its arguments, its properties
  and its children, under one argument-name configuration: two nodes that agree on these
  convert to the same value, whatever their names and wherever they stand among their
  siblings. The properties are compared as Go maps, that is, as sets of entries with
  distinct keys, so the order in which a \<^verbatim>\<open>range\<close> loop visits them does not matter
  either.
\<close>

theorem value_depends_on_own_content:
  assumes "Arguments n1 = Arguments n2"
    and "Children n1 = Children n2"
    and "set (Properties n1) = set (Properties n2)"
    and "distinct (map fst (Properties n1))"
    and "distinct (map fst (Properties n2))"
  shows "convertNodeToValue cfg n1 = convertNodeToValue cfg n2"
proof -
  have m: "map_of (rev (Properties n1)) = map_of (rev (Properties n2))"
    using assms(3-5) by (simp add: map_of_rev_distinct map_of_inject_set)
  have e: "Properties n1 = [] \<longleftrightarrow> Properties n2 = []"
    using assms(3) by (metis set_empty)
  show ?thesis
  proof (cases "Children n1 = []")
    case False
    then show ?thesis
      using assms(1,2) m by (simp add: convertNodeToValue_children cong: option.case_cong)
  next
    case True
    show ?thesis
    proof (cases "Properties n1 = []")
      case False
      then show ?thesis
        using True assms(1,2) m e by (simp add: convertNodeToValue_props cong: option.case_cong)
    next
      case p: True
      then show ?thesis
        using True assms(1,2) e
        by (simp add: convertNodeToValue.simps[of cfg n1] convertNodeToValue.simps[of cfg n2])
    qed
  qed
qed

theorem value_depends_on_own_content_witness:
  "convertNodeToValue defaultArgNameMap
     (Node ''a'' [strVal ''v''] [(''p'', intVal 1), (''q'', intVal 2)] [Node ''c'' [] [] []]) =
   convertNodeToValue defaultArgNameMap
     (Node ''b'' [strVal ''v''] [(''q'', intVal 2), (''p'', intVal 1)] [Node ''c'' [] [] []])"
  using value_depends_on_own_content[of
     "Node ''a'' [strVal ''v''] [(''p'', intVal 1), (''q'', intVal 2)] [Node ''c'' [] [] []]"
     "Node ''b'' [strVal ''v''] [(''q'', intVal 2), (''p'', intVal 1)] [Node ''c'' [] [] []]"
     defaultArgNameMap]
  by (simp add: insert_commute)

text \<open>
  Claim C10. \<^verbatim>\<open>convertValue\<close> applied to the nil pointer returns JSON null; it has a
  result on every input, nil included.
\<close>

theorem convertValue_nil: "convertValue None = JNull"
  by simp

section \<open>Properties of the inclusion resolver\<close>

subsection \<open>Strings and the directive pattern\<close>

lemma SplitFrom_nonempty: "SplitFrom cur s \<noteq> []"
  by (induction s arbitrary: cur) auto

lemma Join_Cons: "Join (x # xs) = (if xs = [] then x else x @ newline # Join xs)"
  by (cases xs) auto

lemma Join_SplitFrom: "Join (SplitFrom cur s) = cur @ s"
  by (induction s arbitrary: cur) (auto simp: Join_Cons SplitFrom_nonempty)

lemma Join_Split: "Join (Split content) = content"
  by (simp add: Split_def Join_SplitFrom)

lemma hasPrefix_iff: "hasPrefix s p \<longleftrightarrow> (\<exists>r. s = p @ r)"
  by (induction s p rule: hasPrefix.induct) auto

lemma Contains_iff: "Contains s sub \<longleftrightarrow> (\<exists>a b. s = a @ sub @ b)"
proof (induction s)
  case Nil
  then show ?case by auto
next
  case (Cons c cs)
  show ?case
  proof
    assume "Contains (c # cs) sub"
    then consider "hasPrefix (c # cs) sub" | "Contains cs sub" by auto
    then show "\<exists>a b. c # cs = a @ sub @ b"
    proof cases
      case 1
      then obtain r where "c # cs = sub @ r" by (auto simp: hasPrefix_iff)
      then have "c # cs = [] @ sub @ r" by simp
      then show ?thesis by blast
    next
      case 2
      then obtain a b where "cs = a @ sub @ b" using Cons.IH by auto
      then have "c # cs = (c # a) @ sub @ b" by simp
      then show ?thesis by blast
    qed
  next
    assume "\<exists>a b. c # cs = a @ sub @ b"
    then obtain a b where ab: "c # cs = a @ sub @ b" by auto
    show "Contains (c # cs) sub"
    proof (cases a)
      case Nil
      then have "hasPrefix (c # cs) sub" using ab unfolding hasPrefix_iff by auto
      then show ?thesis by simp
    next
      case (Cons a0 as)
      then have "cs = as @ sub @ b" using ab by simp
      then show ?thesis using Cons.IH by auto
    qed
  qed
qed

lemma SplitFrom_piece:
  "l \<in> set (SplitFrom cur s) \<Longrightarrow> \<exists>a b. cur @ s = a @ l @ b"
proof (induction s arbitrary: cur)
  case Nil
  then have "cur @ [] = [] @ l @ []" by simp
  then show ?case by blast
next
  case (Cons c cs)
  show ?case
  proof (cases "c = newline")
    case True
    with Cons.prems consider "l = cur" | "l \<in> set (SplitFrom [] cs)" by auto
    then show ?thesis
    proof cases
      case 1
      then have "cur @ c # cs = [] @ l @ (c # cs)" by simp
      then show ?thesis by blast
    next
      case 2
      then obtain a b where "[] @ cs = a @ l @ b" using Cons.IH by blast
      then have "cur @ c # cs = (cur @ c # a) @ l @ b" by simp
      then show ?thesis by blast
    qed
  next
    case False
    with Cons.prems have "l \<in> set (SplitFrom (cur @ [c]) cs)" by simp
    then obtain a b where "(cur @ [c]) @ cs = a @ l @ b" using Cons.IH by blast
    then show ?thesis by auto
  qed
qed

lemma includeRegex_hasMarker:
  assumes "includeRegex line = Some p"
  shows "Contains line ''@include''"
proof -
  from assms have "hasPrefix (dropWhile isSpace line) ''@include''"
    by (auto simp: includeRegex_def Let_def split: if_splits)
  then obtain r where "dropWhile isSpace line = ''@include'' @ r"
    unfolding hasPrefix_iff by blast
  then have "line = takeWhile isSpace line @ ''@include'' @ r"
    by (metis takeWhile_dropWhile_id)
  then show ?thesis unfolding Contains_iff by blast
qed

lemma directive_in_content:
  assumes "line \<in> set (Split content)" "includeRegex line = Some p"
  shows "Contains content ''@include''"
proof -
  obtain a b where "content = a @ line @ b"
    using SplitFrom_piece[of line "[]" content] assms(1) by (auto simp: Split_def)
  moreover obtain c d where "line = c @ ''@include'' @ d"
    using includeRegex_hasMarker[OF assms(2)] unfolding Contains_iff by blast
  ultimately have "content = (a @ c) @ ''@include'' @ (d @ b)" by simp
  then show ?thesis unfolding Contains_iff by blast
qed

lemma not_space_at: "\<not> isSpace CHR ''@''" "\<not> isSpace quote"
  by (simp_all add: isSpace_def quote_def)

lemma includeRegex_iff:
  "includeRegex line = Some path \<longleftrightarrow>
     (\<exists>ws1 ws2 rest. line = ws1 @ ''@include'' @ ws2 @ quote # path @ quote # rest \<and>
        (\<forall>c \<in> set ws1. isSpace c) \<and> ws2 \<noteq> [] \<and> (\<forall>c \<in> set ws2. isSpace c) \<and>
        path \<noteq> [] \<and> quote \<notin> set path)"
proof
  assume m: "includeRegex line = Some path"
  define s1 where "s1 = dropWhile isSpace line"
  define s2 where "s2 = drop (length ''@include'') s1"
  define s3 where "s3 = dropWhile isSpace s2"
  from m have pre: "hasPrefix s1 ''@include''"
    by (auto simp: includeRegex_def Let_def s1_def split: if_splits)
  then have s1: "s1 = ''@include'' @ s2"
    unfolding hasPrefix_iff s2_def by auto
  from m pre have ws: "takeWhile isSpace s2 \<noteq> []"
    by (auto simp: includeRegex_def Let_def s1_def s2_def split: if_splits)
  from m pre ws obtain s4 where s3: "s3 = quote # s4"
    and g: "path = takeWhile (\<lambda>c. c \<noteq> quote) s4" "path \<noteq> []"
    and cl: "dropWhile (\<lambda>c. c \<noteq> quote) s4 \<noteq> []"
    unfolding includeRegex_def Let_def s1_def[symmetric] s2_def[symmetric] s3_def[symmetric]
    by (auto split: if_splits list.splits)
  from cl have "hd (dropWhile (\<lambda>c. c \<noteq> quote) s4) = quote"
    using hd_dropWhile[of "\<lambda>c. c \<noteq> quote" s4] by auto
  with cl obtain rest where rest: "dropWhile (\<lambda>c. c \<noteq> quote) s4 = quote # rest"
    by (cases "dropWhile (\<lambda>c. c \<noteq> quote) s4") auto
  have "s4 = path @ quote # rest"
    using takeWhile_dropWhile_id[of "\<lambda>c. c \<noteq> quote" s4] g(1) rest by simp
  moreover have "s2 = takeWhile isSpace s2 @ s3"
    by (simp add: s3_def)
  moreover have "line = takeWhile isSpace line @ s1"
    by (simp add: s1_def)
  ultimately have "line = takeWhile isSpace line @ ''@include'' @ takeWhile isSpace s2 @ quote # path @ quote # rest"
    using s1 s3 by simp
  moreover have "\<forall>c \<in> set (takeWhile isSpace line). isSpace c" "\<forall>c \<in> set (takeWhile isSpace s2). isSpace c"
    by (auto dest: set_takeWhileD)
  moreover have "quote \<notin> set path"
    unfolding g(1) by (auto dest: set_takeWhileD)
  ultimately show "\<exists>ws1 ws2 rest. line = ws1 @ ''@include'' @ ws2 @ quote # path @ quote # rest \<and>
        (\<forall>c \<in> set ws1. isSpace c) \<and> ws2 \<noteq> [] \<and> (\<forall>c \<in> set ws2. isSpace c) \<and>
        path \<noteq> [] \<and> quote \<notin> set path"
    using ws g(2) by blast
next
  assume "\<exists>ws1 ws2 rest. line = ws1 @ ''@include'' @ ws2 @ quote # path @ quote # rest \<and>
        (\<forall>c \<in> set ws1. isSpace c) \<and> ws2 \<noteq> [] \<and> (\<forall>c \<in> set ws2. isSpace c) \<and>
        path \<noteq> [] \<and> quote \<notin> set path"
  then obtain ws1 ws2 rest where line: "line = ws1 @ ''@include'' @ ws2 @ quote # path @ quote # rest"
    and w1: "\<forall>c \<in> set ws1. isSpace c" and w2: "ws2 \<noteq> []" "\<forall>c \<in> set ws2. isSpace c"
    and p: "path \<noteq> []" "quote \<notin> set path"
    by blast
  have d1: "dropWhile isSpace line = ''@include'' @ ws2 @ quote # path @ quote # rest"
    unfolding line using w1 not_space_at(1) by (simp add: dropWhile_append3)
  have t2: "takeWhile isSpace (ws2 @ quote # path @ quote # rest) = ws2"
    using w2(2) not_space_at(2) by (simp add: takeWhile_tail)
  have d2: "dropWhile isSpace (ws2 @ quote # path @ quote # rest) = quote # path @ quote # rest"
    using w2(2) not_space_at(2) by (simp add: dropWhile_append3)
  have t3: "takeWhile (\<lambda>c. c \<noteq> quote) (path @ quote # rest) = path"
    using p(2) by (auto simp: takeWhile_tail)
  have d3: "dropWhile (\<lambda>c. c \<noteq> quote) (path @ quote # rest) = quote # rest"
    using p(2) by (auto simp: dropWhile_append3)
  show "includeRegex line = Some path"
    unfolding includeRegex_def Let_def d1
    using w2(1) p(1) by (simp add: t2 d2 t3 d3)
qed

lemma includeRegex_directive [simp]:
  "p \<noteq> [] \<Longrightarrow> quote \<notin> set p \<Longrightarrow> includeRegex (directive p @ rest) = Some p"
  unfolding includeRegex_iff directive_def
  apply (rule exI[of _ "[]"], rule exI[of _ "'' ''"], rule exI[of _ rest])
  apply (simp add: isSpace_def)
  done

subsection \<open>The traversal\<close>

lemma processLines_plain:
  "\<forall>l \<in> set lines. includeRegex l = None \<Longrightarrow>
   processLines fuel sys filename lines result included = Some (Inr (Join (result @ lines)), included)"
  by (induction lines arbitrary: result) auto

lemma circular_when_visited:
  "filepath_Abs sys filename = Some absPath \<Longrightarrow> absPath \<in> included \<Longrightarrow>
   processIncludes (Suc fuel) sys filename included = Some (Inl (CircularInclude filename), included)"
  by simp

lemma included_grows:
  "(processIncludes fuel sys filename included = Some (r, included') \<longrightarrow>
      included \<subseteq> included' \<and> (\<forall>a. filepath_Abs sys filename = Some a \<longrightarrow> a \<in> included'))"
  "(processLines fuel sys filename lines result included = Some (r, included') \<longrightarrow>
      included \<subseteq> included')"
proof (induction fuel sys filename included and fuel sys filename lines result included
    arbitrary: r included' and r included' rule: processIncludes_processLines.induct)
  case (1 sys filename included)
  show ?case by simp
next
  case (2 fuel sys filename included)
  show ?case
  proof (intro impI)
    assume run: "processIncludes (Suc fuel) sys filename included = Some (r, included')"
    show "included \<subseteq> included' \<and> (\<forall>a. filepath_Abs sys filename = Some a \<longrightarrow> a \<in> included')"
    proof (cases "filepath_Abs sys filename")
      case None
      with run show ?thesis by auto
    next
      case (Some a)
      show ?thesis
      proof (cases "a \<in> included")
        case True
        with run Some show ?thesis by auto
      next
        case False
        show ?thesis
        proof (cases "os_ReadFile sys filename")
          case None
          with run Some False show ?thesis by (auto simp: Let_def)
        next
          case (Some content)
          show ?thesis
          proof (cases "Contains content ''@include''")
            case False
            with run \<open>filepath_Abs sys filename = Some a\<close> \<open>a \<notin> included\<close> Some
            show ?thesis by (auto simp: Let_def)
          next
            case True
            with run \<open>filepath_Abs sys filename = Some a\<close> \<open>a \<notin> included\<close> Some
            have "processLines fuel sys filename (Split content) [] (insert a included) = Some (r, included')"
              by (simp add: Let_def)
            with "2.IH"[OF \<open>filepath_Abs sys filename = Some a\<close> \<open>a \<notin> included\<close> refl Some, of r included'] True
            have "insert a included \<subseteq> included'" by simp
            with \<open>filepath_Abs sys filename = Some a\<close> show ?thesis by auto
          qed
        qed
      qed
    qed
  qed
next
  case (3 fuel sys filename result included)
  show ?case by auto
next
  case (4 fuel sys filename line lines result included)
  show ?case
  proof (intro impI)
    assume run: "processLines fuel sys filename (line # lines) result included = Some (r, included')"
    show "included \<subseteq> included'"
    proof (cases "includeRegex line")
      case None
      with run "4.IH"(1)[OF None, of r included'] show ?thesis by simp
    next
      case (Some includeFile)
      let ?path = "filepath_Join sys (filepath_Dir sys filename) includeFile"
      show ?thesis
      proof (cases "processIncludes fuel sys ?path included")
        case None
        with run Some show ?thesis by (simp add: Let_def)
      next
        case inner: (Some res)
        obtain r1 inc1 where res: "res = (r1, inc1)" by (cases res)
        from "4.IH"(2)[OF Some refl refl, of r1 inc1] inner res
        have sub1: "included \<subseteq> inc1" by simp
        show ?thesis
        proof (cases r1)
          case (Inl e)
          with run Some inner res sub1 show ?thesis by (auto simp: Let_def)
        next
          case (Inr c)
          with run Some inner res
          have "processLines fuel sys filename lines (result @ [c]) inc1 = Some (r, included')"
            by (simp add: Let_def)
          with "4.IH"(3)[OF Some refl refl inner res[symmetric] Inr, of r included']
          have "inc1 \<subseteq> included'" by simp
          with sub1 show ?thesis by auto
        qed
      qed
    qed
  qed
qed

lemma processLines_Cons_cases:
  assumes "processLines fuel sys filename (line # lines) result included = Some (r, included')"
  obtains
    (plain) "includeRegex line = None"
      "processLines fuel sys filename lines (result @ [line]) included = Some (r, included')"
  | (failed) includeFile err where "includeRegex line = Some includeFile"
      "processIncludes fuel sys (filepath_Join sys (filepath_Dir sys filename) includeFile) included
         = Some (Inl err, included')"
      "r = Inl (IncludeError includeFile err)"
  | (spliced) includeFile includedContent included1 where "includeRegex line = Some includeFile"
      "processIncludes fuel sys (filepath_Join sys (filepath_Dir sys filename) includeFile) included
         = Some (Inr includedContent, included1)"
      "processLines fuel sys filename lines (result @ [includedContent]) included1 = Some (r, included')"
  using assms
  by (auto simp: Let_def split: option.splits sum.splits prod.splits)

lemma processIncludes_cases:
  assumes "processIncludes fuel sys filename included = Some (r, included')"
  obtains
    (abs_error) "filepath_Abs sys filename = None" "r = Inl (AbsPathError filename)"
      "included' = included"
  | (circular) absPath where "filepath_Abs sys filename = Some absPath" "absPath \<in> included"
      "r = Inl (CircularInclude filename)" "included' = included"
  | (read_error) absPath where "filepath_Abs sys filename = Some absPath" "absPath \<notin> included"
      "os_ReadFile sys filename = None" "r = Inl (ReadError filename)"
      "included' = insert absPath included"
  | (as_is) absPath content where "filepath_Abs sys filename = Some absPath"
      "absPath \<notin> included" "os_ReadFile sys filename = Some content"
      "\<not> Contains content ''@include''" "r = Inr content" "included' = insert absPath included"
  | (by_line) fuel' absPath content where "fuel = Suc fuel'"
      "filepath_Abs sys filename = Some absPath"
      "absPath \<notin> included" "os_ReadFile sys filename = Some content"
      "Contains content ''@include''"
      "processLines fuel' sys filename (Split content) [] (insert absPath included) = Some (r, included')"
proof (cases fuel)
  case 0
  with assms show ?thesis by simp
next
  case (Suc fuel')
  with assms show ?thesis
    by (auto simp: Let_def split: option.splits if_splits intro: that)
qed

lemma pieceOf_mono: "pieceOf fuel sys filename inc1 line piece \<Longrightarrow> inc0 \<subseteq> inc1 \<Longrightarrow>
   pieceOf fuel sys filename inc0 line piece"
  unfolding pieceOf_def by (auto split: option.splits)

lemma processLines_pieces:
  "processLines fuel sys filename lines result included = Some (Inr out, included') \<Longrightarrow>
   \<exists>pieces. list_all2 (pieceOf fuel sys filename included) lines pieces \<and> out = Join (result @ pieces)"
proof (induction lines arbitrary: result included)
  case Nil
  then show ?case by simp
next
  case (Cons line lines)
  from Cons.prems show ?case
  proof (cases rule: processLines_Cons_cases)
    case plain
    from Cons.IH[OF plain(2)] obtain pieces where
      p: "list_all2 (pieceOf fuel sys filename included) lines pieces" "out = Join ((result @ [line]) @ pieces)"
      by blast
    have "pieceOf fuel sys filename included line line"
      using plain(1) by (simp add: pieceOf_def)
    with p have "list_all2 (pieceOf fuel sys filename included) (line # lines) (line # pieces)"
      "out = Join (result @ line # pieces)" by simp_all
    then show ?thesis by blast
  next
    case (failed includeFile err)
    then show ?thesis by simp
  next
    case (spliced includeFile includedContent included1)
    from Cons.IH[OF spliced(3)] obtain pieces where
      p: "list_all2 (pieceOf fuel sys filename included1) lines pieces"
         "out = Join ((result @ [includedContent]) @ pieces)"
      by blast
    have sub: "included \<subseteq> included1"
      using included_grows(1)[of fuel sys _ included _ included1] spliced(2) by blast
    have "pieceOf fuel sys filename included line includedContent"
      using spliced(1,2) by (auto simp: pieceOf_def)
    moreover have "list_all2 (pieceOf fuel sys filename included) lines pieces"
      using p(1) sub by (auto elim!: list_all2_mono intro: pieceOf_mono)
    ultimately have "list_all2 (pieceOf fuel sys filename included) (line # lines) (includedContent # pieces)"
      "out = Join (result @ includedContent # pieces)" using p(2) by simp_all
    then show ?thesis by blast
  qed
qed



lemma processLines_error_shape:
  "processLines fuel sys filename lines result included = Some (Inl e, included') \<Longrightarrow>
   \<exists>p e'. e = IncludeError p e'"
proof (induction lines arbitrary: result included)
  case Nil
  then show ?case by simp
next
  case (Cons line lines)
  from Cons.prems show ?case
    by (cases rule: processLines_Cons_cases) (auto dest: Cons.IH)
qed

lemma circular_only_when_visited:
  assumes "processIncludes fuel sys filename included = Some (Inl (CircularInclude p), included')"
  shows "p = filename \<and> included' = included \<and>
     (\<exists>absPath. filepath_Abs sys filename = Some absPath \<and> absPath \<in> included)"
  using assms
  by (cases rule: processIncludes_cases) (auto dest: processLines_error_shape)








subsection \<open>The traversal against the unfolded tree\<close>

lemma expandLines_plain:
  "\<forall>l \<in> set lines. includeRegex l = None \<Longrightarrow> expandLines fuel sys filename lines = Some (lines, [])"
  by (induction lines) auto

lemma if_holds: "(if c then a else b) \<Longrightarrow> c \<Longrightarrow> a"
  by simp

lemma if_fails: "(if c then a else b) \<Longrightarrow> \<not> c \<Longrightarrow> b"
  by simp

lemma processLines_directive_ok:
  "includeRegex line = Some includeFile \<Longrightarrow>
   processIncludes fuel sys (filepath_Join sys (filepath_Dir sys filename) includeFile) included
     = Some (Inr c, included1) \<Longrightarrow>
   processLines fuel sys filename (line # lines) result included =
     processLines fuel sys filename lines (result @ [c]) included1"
  by (simp add: Let_def)

lemma processLines_directive_failed:
  "includeRegex line = Some includeFile \<Longrightarrow>
   processIncludes fuel sys (filepath_Join sys (filepath_Dir sys filename) includeFile) included
     = Some (Inl e, included1) \<Longrightarrow>
   processLines fuel sys filename (line # lines) result included =
     Some (Inl (IncludeError includeFile e), included1)"
  by (simp add: Let_def)

lemma processLines_expand:
  assumes P: "\<And>f inc out entered. expand fuel sys f = Some (out, entered) \<Longrightarrow>
      (if distinct entered \<and> set entered \<inter> inc = {}
       then processIncludes fuel sys f inc = Some (Inr out, inc \<union> set entered)
       else \<exists>e inc'. processIncludes fuel sys f inc = Some (Inl e, inc') \<and> reportsCircular e)"
  shows "expandLines fuel sys filename lines = Some (pieces, entered) \<Longrightarrow>
      (if distinct entered \<and> set entered \<inter> included = {}
       then processLines fuel sys filename lines result included
              = Some (Inr (Join (result @ pieces)), included \<union> set entered)
       else \<exists>e inc'. processLines fuel sys filename lines result included = Some (Inl e, inc') \<and>
              reportsCircular e)"
proof (induction lines arbitrary: pieces entered result included)
  case Nil
  then show ?case by simp
next
  case (Cons line lines)
  show ?case
  proof (cases "includeRegex line")
    case None
    with Cons.prems obtain ps where
      rest: "expandLines fuel sys filename lines = Some (ps, entered)" and ps: "pieces = line # ps"
      by (auto split: option.splits)
    have step: "processLines fuel sys filename (line # lines) result included =
        processLines fuel sys filename lines (result @ [line]) included"
      using None by simp
    have j: "Join ((result @ [line]) @ ps) = Join (result @ pieces)"
      using ps by simp
    from Cons.IH[OF rest, of included "result @ [line]"] show ?thesis
      unfolding step j .
  next
    case (Some includeFile)
    let ?path = "filepath_Join sys (filepath_Dir sys filename) includeFile"
    from Cons.prems Some obtain out e1 ps e2 where
      inner: "expand fuel sys ?path = Some (out, e1)"
      and rest: "expandLines fuel sys filename lines = Some (ps, e2)"
      and eq: "pieces = out # ps" "entered = e1 @ e2"
      by (auto split: option.splits)
    show ?thesis
    proof (cases "distinct e1 \<and> set e1 \<inter> included = {}")
      case False
      from if_fails[OF P[OF inner, of included] False] obtain e inc' where
        f: "processIncludes fuel sys ?path included = Some (Inl e, inc')" "reportsCircular e" by auto
      have bad: "\<not> (distinct entered \<and> set entered \<inter> included = {})"
        using False eq(2) by auto
      have "processLines fuel sys filename (line # lines) result included
          = Some (Inl (IncludeError includeFile e), inc')"
        by (rule processLines_directive_failed[OF Some f(1)])
      moreover have "reportsCircular (IncludeError includeFile e)" using f(2) by simp
      ultimately have "\<exists>e inc'. processLines fuel sys filename (line # lines) result included
          = Some (Inl e, inc') \<and> reportsCircular e" by blast
      with bad show ?thesis by (simp only: if_False)
    next
      case True
      from if_holds[OF P[OF inner, of included] True] have
        run: "processIncludes fuel sys ?path included = Some (Inr out, included \<union> set e1)" .
      have step: "processLines fuel sys filename (line # lines) result included =
         processLines fuel sys filename lines (result @ [out]) (included \<union> set e1)"
        by (rule processLines_directive_ok[OF Some run])
      have cond: "(distinct entered \<and> set entered \<inter> included = {}) \<longleftrightarrow>
          (distinct e2 \<and> set e2 \<inter> (included \<union> set e1) = {})"
        using True eq(2) by auto
      have j: "Join ((result @ [out]) @ ps) = Join (result @ pieces)"
        using eq(1) by simp
      have u: "included \<union> set e1 \<union> set e2 = included \<union> set entered"
        using eq(2) by auto
      from Cons.IH[OF rest, of "included \<union> set e1" "result @ [out]"] show ?thesis
        unfolding step cond j u .
    qed
  qed
qed

lemma processIncludes_expand:
  "expand fuel sys f = Some (out, entered) \<Longrightarrow>
      (if distinct entered \<and> set entered \<inter> inc = {}
       then processIncludes fuel sys f inc = Some (Inr out, inc \<union> set entered)
       else \<exists>e inc'. processIncludes fuel sys f inc = Some (Inl e, inc') \<and> reportsCircular e)"
proof (induction fuel arbitrary: f inc out entered)
  case 0
  then show ?case by simp
next
  case (Suc fuel)
  from Suc.prems obtain a content pieces vs where
    a: "filepath_Abs sys f = Some a" and rd: "os_ReadFile sys f = Some content"
    and ls: "expandLines fuel sys f (Split content) = Some (pieces, vs)"
    and eq: "out = Join pieces" "entered = a # vs"
    by (auto split: option.splits)
  show ?case
  proof (cases "a \<in> inc")
    case True
    then have bad: "\<not> (distinct entered \<and> set entered \<inter> inc = {})" using eq(2) by auto
    have "processIncludes (Suc fuel) sys f inc = Some (Inl (CircularInclude f), inc)"
      using a True by simp
    then have "\<exists>e inc'. processIncludes (Suc fuel) sys f inc = Some (Inl e, inc') \<and> reportsCircular e"
      by simp
    with bad show ?thesis by (simp only: if_False)
  next
    case False
    show ?thesis
    proof (cases "Contains content ''@include''")
      case c: False
      have "\<forall>l \<in> set (Split content). includeRegex l = None"
        using c directive_in_content[of _ content] by (metis option.exhaust)
      from expandLines_plain[OF this, of fuel sys f] ls have "pieces = Split content" "vs = []" by simp_all
      with a rd False c eq show ?thesis by (simp add: Let_def Join_Split)
    next
      case c: True
      have step: "processIncludes (Suc fuel) sys f inc =
          processLines fuel sys f (Split content) [] (insert a inc)"
        using a rd False c by (simp add: Let_def)
      have cond: "(distinct entered \<and> set entered \<inter> inc = {}) \<longleftrightarrow>
          (distinct vs \<and> set vs \<inter> insert a inc = {})"
        using False eq(2) by auto
      have j: "Join ([] @ pieces) = out" using eq(1) by simp
      have u: "insert a inc \<union> set vs = inc \<union> set entered" using eq(2) by auto
      from processLines_expand[OF Suc.IH ls, of "insert a inc" "[]"] show ?thesis
        unfolding step cond j u .
    qed
  qed
qed

lemma expandLines_replaced:
  "expandLines fuel sys filename lines = Some (pieces, entered) \<Longrightarrow> distinct entered \<Longrightarrow>
   list_all2 (replaced fuel sys filename) lines pieces"
proof (induction lines arbitrary: pieces entered)
  case Nil
  then show ?case by simp
next
  case (Cons line lines)
  show ?case
  proof (cases "includeRegex line")
    case None
    with Cons.prems(1) obtain ps where
      rest: "expandLines fuel sys filename lines = Some (ps, entered)" and ps: "pieces = line # ps"
      by (auto split: option.splits)
    from Cons.IH[OF rest Cons.prems(2)] None ps show ?thesis
      by (simp add: replaced_def)
  next
    case (Some includeFile)
    let ?path = "filepath_Join sys (filepath_Dir sys filename) includeFile"
    from Cons.prems(1) Some obtain out e1 ps e2 where
      inner: "expand fuel sys ?path = Some (out, e1)"
      and rest: "expandLines fuel sys filename lines = Some (ps, e2)"
      and eq: "pieces = out # ps" "entered = e1 @ e2"
      by (auto split: option.splits)
    from Cons.prems(2) eq(2) have d: "distinct e1" "distinct e2" by simp_all
    from d(1) have "distinct e1 \<and> set e1 \<inter> {} = {}" by simp
    from if_holds[OF processIncludes_expand[OF inner, of "{}"] this]
    have "replaced fuel sys filename line out"
      using Some by (auto simp: replaced_def)
    with Cons.IH[OF rest d(2)] eq(1) show ?thesis by simp
  qed
qed

lemmas run_simps = flatDir_def Split_def newline_def directive_def quote_def
  includeRegex_def isSpace_def Let_def

subsection \<open>The claims\<close>

text \<open>
  Claim C4, as stated, at a concrete input: \<^verbatim>\<open>main.kdl\<close> includes the leaf file
  \<^verbatim>\<open>a.kdl\<close> on two sibling lines. No file occurs twice on a recursion chain, yet the
  second include fails with the circular-include error.
\<close>

theorem sibling_include_counterexample:
  "processIncludes 2
     (flatDir [(''main.kdl'', directive ''a.kdl'' @ [newline] @ directive ''a.kdl''),
               (''a.kdl'', ''leaf 1'')])
     ''main.kdl'' {} =
   Some (Inl (IncludeError ''a.kdl'' (CircularInclude ''a.kdl'')), {''/w/a.kdl'', ''/w/main.kdl''})"
  by (simp add: numeral_2_eq_2 flatDir_def Split_def newline_def directive_def quote_def
      includeRegex_def isSpace_def Let_def)

text \<open>
  Claim C4, amended. The visited set spans the whole traversal, not the current recursion
  chain. Over an inclusion tree in which every file reached resolves and reads,
  \<^verbatim>\<open>processIncludes\<close> returns the unfolded text exactly when no absolute path is
  entered twice anywhere in the traversal and none was in the visited set at the start,
  and the set it returns is the initial one with every entered path added; otherwise,
  so also when one file is included from two sibling lines or two sibling branches, it
  fails with the circular-include error, bare or wrapped by the including files. A call
  raises the circular-include error for its own file exactly when the file's absolute
  path is already in the visited set, and no call removes a path from the set.
\<close>

theorem visited_set_spans_traversal:
  "(expand fuel sys filename = Some (out, entered) \<longrightarrow>
      (if distinct entered \<and> set entered \<inter> included = {}
       then processIncludes fuel sys filename included = Some (Inr out, included \<union> set entered)
       else \<exists>e inc'. processIncludes fuel sys filename included = Some (Inl e, inc') \<and>
              reportsCircular e)) \<and>
   (filepath_Abs sys filename = Some absPath \<and> absPath \<in> included \<longrightarrow>
      processIncludes (Suc fuel) sys filename included
        = Some (Inl (CircularInclude filename), included)) \<and>
   (processIncludes fuel sys filename included = Some (Inl (CircularInclude p), included') \<longrightarrow>
      p = filename \<and> (\<exists>a. filepath_Abs sys filename = Some a \<and> a \<in> included)) \<and>
   (processIncludes fuel sys filename included = Some (r, included') \<longrightarrow>
      included \<subseteq> included' \<and> (\<forall>a. filepath_Abs sys filename = Some a \<longrightarrow> a \<in> included'))"
proof -
  have T: "(if distinct entered \<and> set entered \<inter> included = {}
       then processIncludes fuel sys filename included = Some (Inr out, included \<union> set entered)
       else \<exists>e inc'. processIncludes fuel sys filename included = Some (Inl e, inc') \<and>
              reportsCircular e)"
    if "expand fuel sys filename = Some (out, entered)"
    by (rule processIncludes_expand[OF that])
  have A: "processIncludes (Suc fuel) sys filename included
        = Some (Inl (CircularInclude filename), included)"
    if "filepath_Abs sys filename = Some absPath \<and> absPath \<in> included"
    using that by (simp add: circular_when_visited)
  have B: "p = filename \<and> (\<exists>a. filepath_Abs sys filename = Some a \<and> a \<in> included)"
    if "processIncludes fuel sys filename included = Some (Inl (CircularInclude p), included')"
    using circular_only_when_visited[OF that] by blast
  have C: "included \<subseteq> included' \<and> (\<forall>a. filepath_Abs sys filename = Some a \<longrightarrow> a \<in> included')"
    if "processIncludes fuel sys filename included = Some (r, included')"
    using that included_grows(1) by blast
  from T A B C show ?thesis by blast
qed

theorem visited_set_spans_traversal_witness:
  "expand 3 diamond ''main.kdl'' =
     Some (''leaf 1'' @ [newline] @ ''leaf 1'',
           [''/w/main.kdl'', ''/w/b.kdl'', ''/w/d.kdl'', ''/w/c.kdl'', ''/w/d.kdl'']) \<and>
   \<not> distinct [''/w/main.kdl'', ''/w/b.kdl'', ''/w/d.kdl'', ''/w/c.kdl'', ''/w/d.kdl''] \<and>
   (\<exists>e inc'. processIncludes 3 diamond ''main.kdl'' {} = Some (Inl e, inc') \<and> reportsCircular e) \<and>
   processIncludes 3 diamond ''main.kdl'' {} =
     Some (Inl (IncludeError ''c.kdl'' (IncludeError ''d.kdl'' (CircularInclude ''d.kdl''))),
           {''/w/c.kdl'', ''/w/d.kdl'', ''/w/b.kdl'', ''/w/main.kdl''}) \<and>
   expand 2 twoIncludes ''main.kdl'' =
     Some (''config 2'' @ [newline] @ ''ui 3'' @ [newline] @ ''scene 1'',
           [''/w/main.kdl'', ''/w/config.kdl'', ''/w/ui.kdl'']) \<and>
   processIncludes 2 twoIncludes ''main.kdl'' {} =
     Some (Inr (''config 2'' @ [newline] @ ''ui 3'' @ [newline] @ ''scene 1''),
           {} \<union> set [''/w/main.kdl'', ''/w/config.kdl'', ''/w/ui.kdl''])"
proof -
  have e1: "expand 3 diamond ''main.kdl'' =
     Some (''leaf 1'' @ [newline] @ ''leaf 1'',
           [''/w/main.kdl'', ''/w/b.kdl'', ''/w/d.kdl'', ''/w/c.kdl'', ''/w/d.kdl''])"
    by (simp add: numeral_3_eq_3 diamond_def run_simps)
  have nd: "\<not> distinct [''/w/main.kdl'', ''/w/b.kdl'', ''/w/d.kdl'', ''/w/c.kdl'', ''/w/d.kdl'']"
    by simp
  have r1: "processIncludes 3 diamond ''main.kdl'' {} =
     Some (Inl (IncludeError ''c.kdl'' (IncludeError ''d.kdl'' (CircularInclude ''d.kdl''))),
           {''/w/c.kdl'', ''/w/d.kdl'', ''/w/b.kdl'', ''/w/main.kdl''})"
    by (simp add: numeral_3_eq_3 diamond_def run_simps)
  have e2: "expand 2 twoIncludes ''main.kdl'' =
     Some (''config 2'' @ [newline] @ ''ui 3'' @ [newline] @ ''scene 1'',
           [''/w/main.kdl'', ''/w/config.kdl'', ''/w/ui.kdl''])"
    by (simp add: numeral_2_eq_2 twoIncludes_def run_simps)
  have c1: "\<exists>e inc'. processIncludes 3 diamond ''main.kdl'' {} = Some (Inl e, inc') \<and> reportsCircular e"
    using visited_set_spans_traversal[where fuel = 3 and sys = diamond and filename = "''main.kdl''"
        and included = "{}", THEN conjunct1, rule_format, OF e1] nd
    by (simp only: if_False simp_thms)
  have c2: "processIncludes 2 twoIncludes ''main.kdl'' {} =
     Some (Inr (''config 2'' @ [newline] @ ''ui 3'' @ [newline] @ ''scene 1''),
           {} \<union> set [''/w/main.kdl'', ''/w/config.kdl'', ''/w/ui.kdl''])"
    using visited_set_spans_traversal[where fuel = 2 and sys = twoIncludes and filename = "''main.kdl''"
        and included = "{}", THEN conjunct1, rule_format, OF e2]
    by simp
  from e1 nd c1 r1 e2 c2 show ?thesis by blast
qed




text \<open>
  Claim C6, as stated, at two concrete inputs. A line that carries text after the quoted
  path is replaced whole, the text after the closing quote being dropped; and a line
  that is the marker directly followed by the quoted path, with no white space between
  them, is not replaced.
\<close>

theorem directive_pattern_counterexample:
  "processIncludes 2
     (flatDir [(''main.kdl'', directive ''a.kdl'' @ '' important 1''), (''a.kdl'', ''leaf 1'')])
     ''main.kdl'' {} =
     Some (Inr ''leaf 1'', {''/w/a.kdl'', ''/w/main.kdl''}) \<and>
   processIncludes 2
     (flatDir [(''main.kdl'', ''@include'' @ quote # ''a.kdl'' @ [quote]), (''a.kdl'', ''leaf 1'')])
     ''main.kdl'' {} =
     Some (Inr (''@include'' @ quote # ''a.kdl'' @ [quote]), {''/w/main.kdl''})"
  by (simp add: numeral_2_eq_2 run_simps)

text \<open>
  Claim C6, amended. A line is a directive exactly when it consists of optional white
  space, the marker \<^verbatim>\<open>@include\<close>, at least one white-space character, a non-empty
  path between double quotes, and then any text at all. Over an inclusion tree in which
  every file reached resolves and reads and no absolute path is entered twice or was
  visited before, \<^verbatim>\<open>processIncludes\<close> returns the lines of the file joined again,
  where each directive line is replaced, whole, by the resolved text of the file it
  names, taken relative to the directory of the including file, and every other line is
  unchanged. Every text that \<^verbatim>\<open>processIncludes\<close> returns has this shape.
\<close>

theorem directive_lines_replaced:
  "(includeRegex line = Some path \<longleftrightarrow>
      (\<exists>ws1 ws2 rest. line = ws1 @ ''@include'' @ ws2 @ quote # path @ quote # rest \<and>
         (\<forall>c \<in> set ws1. isSpace c) \<and> ws2 \<noteq> [] \<and> (\<forall>c \<in> set ws2. isSpace c) \<and>
         path \<noteq> [] \<and> quote \<notin> set path)) \<and>
   (expand (Suc fuel) sys filename = Some (out, entered) \<and> distinct entered \<and>
    set entered \<inter> included = {} \<longrightarrow>
      (\<exists>content pieces. os_ReadFile sys filename = Some content \<and>
         list_all2 (replaced fuel sys filename) (Split content) pieces \<and>
         processIncludes (Suc fuel) sys filename included
           = Some (Inr (Join pieces), included \<union> set entered))) \<and>
   (processIncludes fuel sys filename included = Some (Inr out', included') \<longrightarrow>
      (\<exists>content pieces. os_ReadFile sys filename = Some content \<and>
         list_all2 (pieceOf (fuel - 1) sys filename included) (Split content) pieces \<and>
         out' = Join pieces))"
proof -
  have pattern: "includeRegex line = Some path \<longleftrightarrow>
      (\<exists>ws1 ws2 rest. line = ws1 @ ''@include'' @ ws2 @ quote # path @ quote # rest \<and>
         (\<forall>c \<in> set ws1. isSpace c) \<and> ws2 \<noteq> [] \<and> (\<forall>c \<in> set ws2. isSpace c) \<and>
         path \<noteq> [] \<and> quote \<notin> set path)"
    by (rule includeRegex_iff)
  have positive: "\<exists>content pieces. os_ReadFile sys filename = Some content \<and>
         list_all2 (replaced fuel sys filename) (Split content) pieces \<and>
         processIncludes (Suc fuel) sys filename included
           = Some (Inr (Join pieces), included \<union> set entered)"
    if h: "expand (Suc fuel) sys filename = Some (out, entered) \<and> distinct entered \<and>
      set entered \<inter> included = {}"
  proof -
    from h obtain a content pieces vs where
      rd: "os_ReadFile sys filename = Some content"
      and ls: "expandLines fuel sys filename (Split content) = Some (pieces, vs)"
      and eq: "out = Join pieces" "entered = a # vs"
      by (auto split: option.splits)
    from h eq(2) have "distinct vs" by simp
    from expandLines_replaced[OF ls this]
    have r: "list_all2 (replaced fuel sys filename) (Split content) pieces" .
    from h have ex: "expand (Suc fuel) sys filename = Some (out, entered)"
      and ok: "distinct entered \<and> set entered \<inter> included = {}" by blast+
    from if_holds[OF processIncludes_expand[OF ex, of included] ok] eq(1)
    have "processIncludes (Suc fuel) sys filename included
           = Some (Inr (Join pieces), included \<union> set entered)" by simp
    with rd r show ?thesis by blast
  qed
  have shape: "\<exists>content pieces. os_ReadFile sys filename = Some content \<and>
         list_all2 (pieceOf (fuel - 1) sys filename included) (Split content) pieces \<and>
         out' = Join pieces"
    if "processIncludes fuel sys filename included = Some (Inr out', included')"
    using that
  proof (cases rule: processIncludes_cases)
    case (as_is absPath content)
    have "pieceOf (fuel - 1) sys filename included l l" if "l \<in> set (Split content)" for l
    proof (cases "includeRegex l")
      case None
      then show ?thesis by (simp add: pieceOf_def)
    next
      case (Some p)
      with that as_is(4) directive_in_content show ?thesis by blast
    qed
    then have "list_all2 (pieceOf (fuel - 1) sys filename included) (Split content) (Split content)"
      by (simp add: list_all2_same)
    with as_is(3,5) show ?thesis by (auto simp: Join_Split)
  next
    case (by_line fuel' absPath content)
    from processLines_pieces[OF by_line(6)] obtain pieces where
      pc: "list_all2 (pieceOf fuel' sys filename (insert absPath included)) (Split content) pieces"
      "out' = Join pieces" by auto
    have "list_all2 (pieceOf fuel' sys filename included) (Split content) pieces"
      using pc(1) by (rule list_all2_mono) (auto intro: pieceOf_mono)
    with by_line(1,4) pc(2) show ?thesis by auto
  qed simp_all
  from pattern positive shape show ?thesis by blast
qed

theorem directive_lines_replaced_witness:
  "expand (Suc 1) twoIncludes ''main.kdl'' =
     Some (''config 2'' @ [newline] @ ''ui 3'' @ [newline] @ ''scene 1'',
           [''/w/main.kdl'', ''/w/config.kdl'', ''/w/ui.kdl'']) \<and>
   distinct [''/w/main.kdl'', ''/w/config.kdl'', ''/w/ui.kdl''] \<and>
   set [''/w/main.kdl'', ''/w/config.kdl'', ''/w/ui.kdl''] \<inter> {} = {} \<and>
   (\<exists>pieces.
      list_all2 (replaced 1 twoIncludes ''main.kdl'')
        [directive ''config.kdl'', directive ''ui.kdl'', ''scene 1''] pieces \<and>
      processIncludes (Suc 1) twoIncludes ''main.kdl'' {}
        = Some (Inr (Join pieces), {} \<union> set [''/w/main.kdl'', ''/w/config.kdl'', ''/w/ui.kdl''])) \<and>
   processIncludes (Suc 1) twoIncludes ''main.kdl'' {} =
     Some (Inr (''config 2'' @ [newline] @ ''ui 3'' @ [newline] @ ''scene 1''),
           {''/w/ui.kdl'', ''/w/config.kdl'', ''/w/main.kdl''})"
proof -
  have e: "expand (Suc 1) twoIncludes ''main.kdl'' =
     Some (''config 2'' @ [newline] @ ''ui 3'' @ [newline] @ ''scene 1'',
           [''/w/main.kdl'', ''/w/config.kdl'', ''/w/ui.kdl''])"
    by (simp add: twoIncludes_def run_simps)
  have d: "distinct [''/w/main.kdl'', ''/w/config.kdl'', ''/w/ui.kdl'']"
    "set [''/w/main.kdl'', ''/w/config.kdl'', ''/w/ui.kdl''] \<inter> {} = {}"
    by simp_all
  have rd: "os_ReadFile twoIncludes ''main.kdl'' =
      Some (directive ''config.kdl'' @ [newline] @ directive ''ui.kdl'' @ [newline] @ ''scene 1'')"
    by (simp add: twoIncludes_def flatDir_def)
  have sp: "Split (directive ''config.kdl'' @ [newline] @ directive ''ui.kdl'' @ [newline] @ ''scene 1'')
      = [directive ''config.kdl'', directive ''ui.kdl'', ''scene 1'']"
    by (simp add: Split_def newline_def directive_def quote_def)
  have run: "processIncludes (Suc 1) twoIncludes ''main.kdl'' {} =
     Some (Inr (''config 2'' @ [newline] @ ''ui 3'' @ [newline] @ ''scene 1''),
           {''/w/ui.kdl'', ''/w/config.kdl'', ''/w/main.kdl''})"
    by (simp add: twoIncludes_def run_simps)
  from directive_lines_replaced[where fuel = 1 and sys = twoIncludes and filename = "''main.kdl''"
      and included = "{}", THEN conjunct2, THEN conjunct1, rule_format, OF conjI[OF e conjI[OF d]]]
  have "\<exists>content pieces. os_ReadFile twoIncludes ''main.kdl'' = Some content \<and>
         list_all2 (replaced 1 twoIncludes ''main.kdl'') (Split content) pieces \<and>
         processIncludes (Suc 1) twoIncludes ''main.kdl'' {}
           = Some (Inr (Join pieces), {} \<union> set [''/w/main.kdl'', ''/w/config.kdl'', ''/w/ui.kdl''])" .
  then have "\<exists>pieces.
      list_all2 (replaced 1 twoIncludes ''main.kdl'')
        [directive ''config.kdl'', directive ''ui.kdl'', ''scene 1''] pieces \<and>
      processIncludes (Suc 1) twoIncludes ''main.kdl'' {}
        = Some (Inr (Join pieces), {} \<union> set [''/w/main.kdl'', ''/w/config.kdl'', ''/w/ui.kdl''])"
    unfolding rd using sp by auto
  with e d run show ?thesis by blast
qed

text \<open>
  Claim C8. A file in which no line is an inclusion directive resolves to its own text,
  unchanged: this holds on the fast path (the text does not contain the marker at all)
  and on the line-by-line path (the marker occurs, but in no directive), for every
  positive fuel.
\<close>

theorem no_directive_identity:
  assumes "filepath_Abs sys filename = Some absPath"
    and "absPath \<notin> included"
    and "os_ReadFile sys filename = Some content"
    and "\<forall>line \<in> set (Split content). includeRegex line = None"
  shows "processIncludes (Suc fuel) sys filename included = Some (Inr content, insert absPath included)"
  using assms by (simp add: processLines_plain Join_Split Let_def)

theorem no_directive_identity_witness:
  "processIncludes 1 (flatDir [(''main.kdl'', ''scene 1'' @ [newline] @ ''  say @include here'')])
      ''main.kdl'' {} =
    Some (Inr (''scene 1'' @ [newline] @ ''  say @include here''), {''/w/main.kdl''})"
  using no_directive_identity[of
     "flatDir [(''main.kdl'', ''scene 1'' @ [newline] @ ''  say @include here'')]"
     "''main.kdl''" "''/w/main.kdl''" "{}" "''scene 1'' @ [newline] @ ''  say @include here''" 0]
  by (simp add: flatDir_def Split_def newline_def includeRegex_def isSpace_def)

end
